theory Spec2Isabelle
  imports Main "HOL-Library.Sublist" "HOL-Library.Char_ord" "HOL-Library.List_Lexorder"
begin

section \<open>Strings of the host language\<close>

text \<open>
  A string of the program is modelled as a \<^typ>\<open>string\<close>, one \<^typ>\<open>char\<close> per code unit.
  The model therefore covers the strings whose code units are below 256; header names and
  values are byte strings on the platform in any case.
\<close>

definition CRLF :: string where
  "CRLF = [CHR 0x0D, CHR 0x0A]"

definition startsWith :: "string \<Rightarrow> string \<Rightarrow> bool" where
  "startsWith s p = prefix p s"

text \<open>\<^verbatim>\<open>s.indexOf(p)\<close>: the first position at which \<open>p\<close> occurs in \<open>s\<close>, or \<open>-1\<close>.\<close>

fun indexOf_nat :: "string \<Rightarrow> string \<Rightarrow> nat option" where
  "indexOf_nat [] p = (if p = [] then Some 0 else None)"
| "indexOf_nat (c # cs) p =
     (if prefix p (c # cs) then Some 0 else map_option Suc (indexOf_nat cs p))"

definition indexOf :: "string \<Rightarrow> string \<Rightarrow> int" where
  "indexOf s p = (case indexOf_nat s p of None \<Rightarrow> - 1 | Some i \<Rightarrow> int i)"

text \<open>
  \<^verbatim>\<open>s.slice(a, b)\<close> and \<^verbatim>\<open>s.slice(a)\<close>: a negative index counts from the end, every
  index is clamped to the string.
\<close>

definition slice_index :: "nat \<Rightarrow> int \<Rightarrow> nat" where
  "slice_index len i = (if i < 0 then nat (max (int len + i) 0) else min (nat i) len)"

definition slice :: "string \<Rightarrow> int \<Rightarrow> int \<Rightarrow> string" where
  "slice s a b =
     (let from = slice_index (length s) a; to = slice_index (length s) b
      in take (to - from) (drop from s))"

definition slice_from :: "string \<Rightarrow> int \<Rightarrow> string" where
  "slice_from s a = drop (slice_index (length s) a) s"

text \<open>\<^verbatim>\<open>s.split(sep)\<close>; with an empty separator the string falls into its code units.\<close>

lemma indexOf_nat_bound: "indexOf_nat s p = Some i \<Longrightarrow> i + length p \<le> length s"
proof (induction s arbitrary: i)
  case Nil
  then show ?case by (simp split: if_splits)
next
  case (Cons c cs)
  show ?case
  proof (cases "prefix p (c # cs)")
    case True
    with Cons.prems show ?thesis by (auto dest: prefix_length_le)
  next
    case False
    with Cons.prems obtain j where "indexOf_nat cs p = Some j" "i = Suc j" by auto
    with Cons.IH show ?thesis by fastforce
  qed
qed

function split_str :: "string \<Rightarrow> string \<Rightarrow> string list" where
  "split_str s sep =
     (if sep = [] then map (\<lambda>c. [c]) s
      else case indexOf_nat s sep of
             None \<Rightarrow> [s]
           | Some i \<Rightarrow> take i s # split_str (drop (i + length sep) s) sep)"
  by pat_completeness auto
termination
proof (relation "measure (\<lambda>(s, sep). length s)")
  show "wf (measure (\<lambda>(s, sep). length s))" by simp
next
  fix s sep :: string and i :: nat
  assume "sep \<noteq> []" and "indexOf_nat s sep = Some i"
  then have "i + length sep \<le> length s" and "0 < length sep"
    by (auto dest: indexOf_nat_bound)
  then have "length s - (i + length sep) < length s"
    by arith
  then show "((drop (i + length sep) s, sep), (s, sep)) \<in> measure (\<lambda>(s, sep). length s)"
    by simp
qed

declare split_str.simps [simp del]

fun join :: "string \<Rightarrow> string list \<Rightarrow> string" where
  "join sep [] = []"
| "join sep [x] = x"
| "join sep (x # y # ys) = x @ sep @ join sep (y # ys)"

text \<open>
  \<^verbatim>\<open>s.trim()\<close> removes white space and line terminators at both ends. Below 256 these
  are the code units 9 to 13, 32 and 160.
\<close>

definition isWhiteSpace :: "char \<Rightarrow> bool" where
  "isWhiteSpace c = (of_char c \<in> {9, 10, 11, 12, 13, 32, 160 :: nat})"

definition trimStart :: "string \<Rightarrow> string" where
  "trimStart s = dropWhile isWhiteSpace s"

definition trimEnd :: "string \<Rightarrow> string" where
  "trimEnd s = rev (dropWhile isWhiteSpace (rev s))"

definition trim :: "string \<Rightarrow> string" where
  "trim s = trimEnd (trimStart s)"



section \<open>Platform classes: errors, header lists, responses\<close>

text \<open>
  \<open>Error\<close> carries the message of a \<^verbatim>\<open>throw new Error(...)\<close> of the source. \<open>TypeError\<close>
  and \<open>RangeError\<close> are raised by the platform classes \<^verbatim>\<open>Headers\<close> and \<^verbatim>\<open>Response\<close>; their
  argument says which check failed (the platform's own message text is not modelled).
  \<open>OutsideModel\<close> is not an exception of the program: it marks an input on which the model
  does not follow the program (a status number too large to be an exact double).
\<close>

datatype error =
    Error string
  | TypeError string
  | RangeError string
  | OutsideModel string

text \<open>
  A \<^verbatim>\<open>Headers\<close> object is its header list. \<^verbatim>\<open>append\<close> strips HTTP white space from the ends
  of the value and refuses a name that is not a token and a value holding NUL, CR or LF;
  \<^verbatim>\<open>get\<close> matches names without regard to ASCII case and joins the values of all matches.
\<close>

type_synonym Headers = "(string \<times> string) list"

definition isTokenChar :: "char \<Rightarrow> bool" where
  "isTokenChar c =
     (let n = (of_char c :: nat)
      in (48 \<le> n \<and> n \<le> 57) \<or> (65 \<le> n \<and> n \<le> 90) \<or> (97 \<le> n \<and> n \<le> 122)
         \<or> n \<in> {33, 35, 36, 37, 38, 39, 42, 43, 45, 46, 94, 95, 96, 124, 126})"

definition isHeaderName :: "string \<Rightarrow> bool" where
  "isHeaderName name = (name \<noteq> [] \<and> list_all isTokenChar name)"

definition isHttpWhitespace :: "char \<Rightarrow> bool" where
  "isHttpWhitespace c = (of_char c \<in> {9, 10, 13, 32 :: nat})"

definition normalizeValue :: "string \<Rightarrow> string" where
  "normalizeValue v = rev (dropWhile isHttpWhitespace (rev (dropWhile isHttpWhitespace v)))"

definition isHeaderValue :: "string \<Rightarrow> bool" where
  "isHeaderValue v = list_all (\<lambda>c. of_char c \<notin> {0, 10, 13 :: nat}) v"

definition Headers_append :: "Headers \<Rightarrow> string \<Rightarrow> string \<Rightarrow> error + Headers" where
  "Headers_append hs name val =
     (let v = normalizeValue val
      in if \<not> isHeaderName name then Inl (TypeError ''invalid header name'')
         else if \<not> isHeaderValue v then Inl (TypeError ''invalid header value'')
         else Inr (hs @ [(name, v)]))"

definition byteLower :: "string \<Rightarrow> string" where
  "byteLower s =
     map (\<lambda>c. let n = (of_char c :: nat) in if 65 \<le> n \<and> n \<le> 90 then char_of (n + 32) else c) s"

definition Headers_get :: "Headers \<Rightarrow> string \<Rightarrow> string option" where
  "Headers_get hs name =
     (case filter (\<lambda>(k, v). byteLower k = byteLower name) hs of
        [] \<Rightarrow> None
      | kvs \<Rightarrow> Some (join '', '' (map snd kvs)))"

text \<open>
  \<^verbatim>\<open>Number.parseInt(s, 10)\<close>: leading white space, a sign, then the longest run of decimal
  digits; \<open>NaN\<close> without a digit, and for the argument \<^verbatim>\<open>undefined\<close> (\<open>None\<close>). A result of
  magnitude \<open>2^53\<close> or more is rounded by the program; the model gives \<open>Inexact\<close> there.
\<close>

datatype number = NaN | Num int | Inexact

definition isDigit :: "char \<Rightarrow> bool" where
  "isDigit c = (48 \<le> (of_char c :: nat) \<and> (of_char c :: nat) \<le> 57)"

definition digitsValue :: "string \<Rightarrow> int" where
  "digitsValue ds = foldl (\<lambda>acc c. 10 * acc + (int (of_char c) - 48)) 0 ds"

definition parseInt :: "string option \<Rightarrow> number" where
  "parseInt arg =
     (case arg of
        None \<Rightarrow> NaN
      | Some s \<Rightarrow>
          let t = trimStart s;
              negative = startsWith t ''-'';
              u = (if startsWith t ''-'' \<or> startsWith t ''+'' then drop 1 t else t);
              ds = takeWhile isDigit u
          in if ds = [] then NaN
             else if 2 ^ 53 \<le> digitsValue ds then Inexact
             else Num (if negative then - digitsValue ds else digitsValue ds))"

text \<open>
  \<^verbatim>\<open>new Response(body, {headers, status, statusText})\<close> with a string body. The status is
  converted to an unsigned 16-bit integer (\<open>NaN\<close> becomes 0). The constructor raises a
  \<open>RangeError\<close> for a status outside 200 to 599, a \<open>TypeError\<close> for a status text that is
  not a reason phrase, and a \<open>TypeError\<close> for a body given with a null-body status.
  A string body adds its content type when the header list has none.
\<close>

record Response =
  res_status :: nat
  res_statusText :: string
  res_headers :: Headers
  res_body :: string

definition toUint16 :: "number \<Rightarrow> nat" where
  "toUint16 x = (case x of Num n \<Rightarrow> nat (n mod 65536) | _ \<Rightarrow> 0)"

definition isReasonPhrase :: "string \<Rightarrow> bool" where
  "isReasonPhrase s =
     list_all (\<lambda>c. let n = (of_char c :: nat) in n = 9 \<or> (32 \<le> n \<and> n \<le> 126) \<or> 128 \<le> n) s"

definition isNullBodyStatus :: "nat \<Rightarrow> bool" where
  "isNullBodyStatus n = (n \<in> {101, 103, 204, 205, 304})"

definition new_Response :: "string \<Rightarrow> Headers \<Rightarrow> number \<Rightarrow> string \<Rightarrow> error + Response" where
  "new_Response body headers status_arg statusText =
     (if status_arg = Inexact then Inl (OutsideModel ''status is not an exact double'')
      else let status = toUint16 status_arg
        in if status < 200 \<or> 599 < status then Inl (RangeError ''status'')
           else if \<not> isReasonPhrase statusText then Inl (TypeError ''invalid statusText'')
           else if isNullBodyStatus status then Inl (TypeError ''body with a null body status'')
           else Inr \<lparr> res_status = status, res_statusText = statusText,
                      res_headers =
                        (if Headers_get headers ''Content-Type'' = None
                         then headers @ [(''content-type'', ''text/plain;charset=UTF-8'')]
                         else headers),
                      res_body = body \<rparr>)"

section \<open>BatchRequest: decoding\<close>

text \<open>The loop of \<^verbatim>\<open>splitPart\<close> over the raw header lines.\<close>

fun appendRawHeaders :: "Headers \<Rightarrow> string list \<Rightarrow> error + Headers" where
  "appendRawHeaders headers [] = Inr headers"
| "appendRawHeaders headers (rawHeader # rest) =
     (let separatorIndex = indexOf rawHeader '':''
      in case Headers_append headers (slice rawHeader 0 separatorIndex)
                (trim (slice_from rawHeader (separatorIndex + 1))) of
           Inl e \<Rightarrow> Inl e
         | Inr headers' \<Rightarrow> appendRawHeaders headers' rest)"

definition splitPart :: "string \<Rightarrow> error + (Headers \<times> string)" where
  "splitPart part =
     (if startsWith part CRLF then Inr ([], drop 2 part)
      else let breakIndex = indexOf part (CRLF @ CRLF);
               rawHeaders = slice part 0 breakIndex;
               rawBody = slice_from part (breakIndex + 4)
        in case appendRawHeaders [] (split_str rawHeaders CRLF) of
             Inl e \<Rightarrow> Inl e
           | Inr headers \<Rightarrow> Inr (headers, rawBody))"

definition parseHttpResponse :: "string \<Rightarrow> error + Response" where
  "parseHttpResponse rawResponse =
     (let firstBreakIndex = indexOf rawResponse CRLF;
          statusLine = slice rawResponse 0 firstBreakIndex;
          rawResponseBody = slice_from rawResponse (firstBreakIndex + 2);
          fields = split_str statusLine '' '';
          statusCode = (case drop 1 fields of [] \<Rightarrow> None | c # _ \<Rightarrow> Some c);
          statusText = drop 2 fields
      in case splitPart rawResponseBody of
           Inl e \<Rightarrow> Inl e
         | Inr (headers, body) \<Rightarrow>
             new_Response (trim body) headers (parseInt statusCode) (join '' '' statusText))"

text \<open>
  \<^verbatim>\<open>getBoundary\<close>. A content type that is absent or empty is "missing". The boundary is
  the second piece of the attribute split at \<open>=\<close>; the attribute starts with \<open>boundary=\<close>, so
  there is one (the last case stands for \<^verbatim>\<open>undefined\<close> in a template string).
\<close>

definition getBoundary :: "Headers \<Rightarrow> error + string" where
  "getBoundary headers =
     (case Headers_get headers ''Content-Type'' of
        None \<Rightarrow> Inl (Error ''Response is missing Content-Type header'')
      | Some contentType \<Rightarrow>
          if contentType = [] then Inl (Error ''Response is missing Content-Type header'')
          else (case find (\<lambda>part. startsWith part ''boundary='')
                       (map trim (split_str contentType '';'')) of
                  None \<Rightarrow> Inl (Error ''Content-Type header is missing boundary'')
                | Some boundaryPart \<Rightarrow>
                    (case split_str boundaryPart ''='' of
                       _ # boundary # _ \<Rightarrow> Inr boundary
                     | _ \<Rightarrow> Inr ''undefined'')))"

text \<open>\<^verbatim>\<open>parts.map(f)\<close> with a callback that may throw: the first exception ends the map.\<close>

fun mapE :: "('a \<Rightarrow> error + 'b) \<Rightarrow> 'a list \<Rightarrow> error + 'b list" where
  "mapE f [] = Inr []"
| "mapE f (x # xs) =
     (case f x of
        Inl e \<Rightarrow> Inl e
      | Inr y \<Rightarrow> (case mapE f xs of Inl e \<Rightarrow> Inl e | Inr ys \<Rightarrow> Inr (y # ys)))"

text \<open>
  The \<^verbatim>\<open>for\<close> loop of \<^verbatim>\<open>parseMultipartResponse\<close>: \<open>decode\<close> gives the responses of one part,
  which are pushed onto \<open>responses\<close>; an exception leaves the loop.
\<close>

fun forParts ::
  "('a \<Rightarrow> error + 'b list) \<Rightarrow> 'b list \<Rightarrow> 'a list \<Rightarrow> error + 'b list" where
  "forParts decode responses [] = Inr responses"
| "forParts decode responses (p # ps) =
     (case decode p of
        Inl e \<Rightarrow> Inl e
      | Inr rs \<Rightarrow> forParts decode (responses @ rs) ps)"

lemma forParts_cong [fundef_cong]:
  "\<lbrakk>ps = ps'; acc = acc'; \<And>p. p \<in> set ps' \<Longrightarrow> f p = g p\<rbrakk> \<Longrightarrow> forParts f acc ps = forParts g acc' ps'"
proof (induction ps arbitrary: ps' acc acc')
  case Nil
  then show ?case by simp
next
  case (Cons p ps)
  then show ?case by (auto split: sum.splits)
qed

text \<open>
  Every part that \<^verbatim>\<open>parseMultipartResponse\<close> hands to a nested call is shorter than the body
  it was cut from: the recursion ends without any bound on the depth.
\<close>

lemma split_str_tl_length:
  "sep \<noteq> [] \<Longrightarrow> p \<in> set (tl (split_str s sep)) \<Longrightarrow> length p < length s"
proof (induction s sep rule: split_str.induct)
  case (1 s sep)
  show ?case
  proof (cases "indexOf_nat s sep")
    case None
    with "1.prems" show ?thesis by (simp add: split_str.simps [of s sep])
  next
    case (Some i)
    let ?r = "drop (i + length sep) s"
    from Some "1.prems"(1) have bound: "i + length sep \<le> length s" "0 < length sep"
      by (auto dest: indexOf_nat_bound)
    then have "length s - (i + length sep) < length s" by arith
    then have shorter: "length ?r < length s" by simp
    from Some "1.prems" have mem: "p \<in> set (split_str ?r sep)"
      by (simp add: split_str.simps [of s sep])
    have "split_str ?r sep \<noteq> []"
      by (simp add: split_str.simps [of ?r sep] "1.prems"(1) split: option.splits)
    then have "p = hd (split_str ?r sep) \<or> p \<in> set (tl (split_str ?r sep))"
      using mem by (cases "split_str ?r sep") auto
    then show ?thesis
    proof
      assume "p = hd (split_str ?r sep)"
      then have "length p \<le> length ?r"
        by (simp add: split_str.simps [of ?r sep] "1.prems"(1) split: option.splits)
      with shorter show ?thesis by simp
    next
      assume "p \<in> set (tl (split_str ?r sep))"
      with "1.IH" [OF "1.prems"(1) Some "1.prems"(1)] have "length p < length ?r" by simp
      with shorter show ?thesis by simp
    qed
  qed
qed

lemma splitPart_body_length: "splitPart part = Inr (hs, b) \<Longrightarrow> length b \<le> length part"
  by (auto simp: splitPart_def slice_from_def Let_def split: if_splits sum.splits)

lemma mapE_member:
  "mapE f xs = Inr ys \<Longrightarrow> y \<in> set ys \<Longrightarrow> \<exists>x \<in> set xs. f x = Inr y"
  by (induction xs arbitrary: ys) (auto split: sum.splits)

function parseMultipartResponse :: "string \<Rightarrow> Headers \<Rightarrow> error + Response list" where
  "parseMultipartResponse body headers =
     (case getBoundary headers of
        Inl e \<Rightarrow> Inl e
      | Inr boundary \<Rightarrow>
          let endBoundaryIndex = indexOf body (''--'' @ boundary @ ''--'');
              trimmedBody = (if 0 \<le> endBoundaryIndex then slice body 0 endBoundaryIndex else body)
          in (case mapE splitPart (drop 1 (split_str trimmedBody (''--'' @ boundary @ CRLF))) of
               Inl e \<Rightarrow> Inl e
             | Inr parts \<Rightarrow>
                 forParts
                   (\<lambda>(headers', body').
                      case Headers_get headers' ''Content-Type'' of
                        None \<Rightarrow> Inl (Error ''Multipart part is missing content-type header'')
                      | Some contentType \<Rightarrow>
                          if contentType = []
                          then Inl (Error ''Multipart part is missing content-type header'')
                          else if contentType = ''application/http''
                          then (case parseHttpResponse body' of
                                  Inl e \<Rightarrow> Inl e
                                | Inr response \<Rightarrow> Inr [response])
                          else if startsWith contentType ''multipart/mixed''
                          then parseMultipartResponse body' headers'
                          else Inl (Error (''Unknown content-type: '' @ contentType)))
                   [] parts))"
  by pat_completeness auto
termination
proof (relation "measure (\<lambda>(body, headers). length body)")
  show "wf (measure (\<lambda>(body, headers). length body))" by simp
next
  fix body :: string and headers :: Headers and boundary endBoundaryIndex trimmedBody parts
    p headers' body' contentType
  assume trimmed: "trimmedBody = (if 0 \<le> endBoundaryIndex then slice body 0 endBoundaryIndex else body)"
    and parts: "mapE splitPart (drop 1 (split_str trimmedBody (''--'' @ boundary @ CRLF))) = Inr parts"
    and mem: "p \<in> set parts" and p: "(headers', body') = p"
  from mapE_member [OF parts mem] obtain raw
    where raw: "raw \<in> set (drop 1 (split_str trimmedBody (''--'' @ boundary @ CRLF)))"
      and split: "splitPart raw = Inr p"
    by blast
  from raw have "length raw < length trimmedBody"
    by (intro split_str_tl_length [of "''--'' @ boundary @ CRLF"]) (simp_all add: drop_Suc)
  moreover have "length (take n (drop m body)) \<le> length body" for n m
    by (simp add: min.coboundedI1)
  then have "length trimmedBody \<le> length body"
    by (simp add: trimmed slice_def Let_def del: length_take length_drop)
  moreover from split p have "length body' \<le> length raw"
    by (auto dest: splitPart_body_length)
  ultimately show "((body', headers'), (body, headers)) \<in> measure (\<lambda>(body, headers). length body)"
    by simp
qed

declare parseMultipartResponse.simps [simp del]

section \<open>BatchRequest: encoding\<close>


text \<open>
  A body is a stream that is read once: \<open>chunks\<close> are the chunks not read yet, \<open>disturbed\<close>
  says that a read has been made. The stream is taken to be readable (neither locked nor
  errored), and the operations of one batch to be different objects.
\<close>

record ReadableStream =
  chunks :: "string list"
  disturbed :: bool

record Request =
  req_method :: string
  req_url :: string
  req_headers :: Headers
  req_body :: "ReadableStream option"





text \<open>
  The state of a \<^verbatim>\<open>BatchRequest\<close>. The arrays that \<^verbatim>\<open>addRequest\<close> creates live in a store,
  \<open>arrays\<close>, under the addresses \<open>0, ..., allocated - 1\<close>: \<^verbatim>\<open>operations\<close> holds a request or
  the address of a changeset array, and \<^verbatim>\<open>lastChangeset\<close> is \<open>None\<close> (\<^verbatim>\<open>null\<close>) or the
  address of the array that is still being filled, which is shared with \<^verbatim>\<open>operations\<close>.
\<close>

datatype entry = Single Request | Changeset nat

record BatchRequest =
  serviceEndpoint :: string
  authorizationHeader :: string
  arrays :: "nat \<Rightarrow> Request list"
  allocated :: nat
  operations :: "entry list"
  lastChangeset :: "nat option"

definition addRequest :: "BatchRequest \<Rightarrow> Request \<Rightarrow> BatchRequest" where
  "addRequest this request =
     (if req_method request = ''GET''
      then this \<lparr> lastChangeset := None, operations := operations this @ [Single request] \<rparr>
      else let this' =
                 (case lastChangeset this of
                    None \<Rightarrow>
                      this \<lparr> arrays := (arrays this) (allocated this := []),
                             allocated := Suc (allocated this),
                             lastChangeset := Some (allocated this),
                             operations := operations this @ [Changeset (allocated this)] \<rparr>
                  | Some a \<Rightarrow> this)
        in case lastChangeset this' of
             None \<Rightarrow> this'
           | Some a \<Rightarrow> this' \<lparr> arrays := (arrays this') (a := arrays this' a @ [request]) \<rparr>)"

definition new_BatchRequest :: "string \<Rightarrow> string \<Rightarrow> Request list \<Rightarrow> BatchRequest" where
  "new_BatchRequest endpoint auth ops =
     foldl addRequest
       \<lparr> serviceEndpoint = endpoint, authorizationHeader = auth, arrays = (\<lambda>a. []),
         allocated = 0, operations = [], lastChangeset = None \<rparr>
       ops"

text \<open>The envelope: \<^verbatim>\<open>operations\<close> with every array address replaced by the array.\<close>

datatype item = Operation Request | ChangesetOf "Request list"

fun resolve :: "(nat \<Rightarrow> Request list) \<Rightarrow> entry \<Rightarrow> item" where
  "resolve arrs (Single r) = Operation r"
| "resolve arrs (Changeset a) = ChangesetOf (arrs a)"

definition envelope :: "BatchRequest \<Rightarrow> item list" where
  "envelope this = map (resolve (arrays this)) (operations this)"

fun requestsOf :: "item list \<Rightarrow> Request list" where
  "requestsOf [] = []"
| "requestsOf (Operation r # es) = r # requestsOf es"
| "requestsOf (ChangesetOf rs # es) = rs @ requestsOf es"








section \<open>Grouping into changesets\<close>

text \<open>
  The grouping as the specification words it: a \<open>GET\<close> stands alone, and a maximal run of
  consecutive operations that are not \<open>GET\<close> is one changeset.
\<close>

function groupRuns :: "Request list \<Rightarrow> item list" where
  "groupRuns [] = []"
| "groupRuns (r # rs) =
     (if req_method r = ''GET'' then Operation r # groupRuns rs
      else ChangesetOf (r # takeWhile (\<lambda>x. req_method x \<noteq> ''GET'') rs)
             # groupRuns (dropWhile (\<lambda>x. req_method x \<noteq> ''GET'') rs))"
  by pat_completeness auto
termination
  by (relation "measure length") (auto simp: less_Suc_eq_le length_dropWhile_le)

fun itemOk :: "item \<Rightarrow> bool" where
  "itemOk (Operation r) = (req_method r = ''GET'')"
| "itemOk (ChangesetOf rs) = (rs \<noteq> [] \<and> list_all (\<lambda>r. req_method r \<noteq> ''GET'') rs)"

fun maximalRuns :: "item list \<Rightarrow> bool" where
  "maximalRuns (ChangesetOf a # ChangesetOf b # es) = False"
| "maximalRuns (e # es) = maximalRuns es"
| "maximalRuns [] = True"

text \<open>The invariant of the store: every array is referenced once, the open one last.\<close>

fun addresses :: "entry list \<Rightarrow> nat list" where
  "addresses [] = []"
| "addresses (Single r # es) = addresses es"
| "addresses (Changeset a # es) = a # addresses es"

definition storeOk :: "BatchRequest \<Rightarrow> bool" where
  "storeOk this =
     (distinct (addresses (operations this))
      \<and> list_all (\<lambda>a. a < allocated this) (addresses (operations this))
      \<and> (case lastChangeset this of
            None \<Rightarrow> True
          | Some a \<Rightarrow> operations this \<noteq> [] \<and> last (operations this) = Changeset a))"

text \<open>A request without headers and body, for the examples.\<close>

definition exampleRequest :: "string \<Rightarrow> string \<Rightarrow> Request" where
  "exampleRequest m u = \<lparr> req_method = m, req_url = u, req_headers = [], req_body = None \<rparr>"





text \<open>
  One raw header line as \<^verbatim>\<open>splitPart\<close> reads it: the name is the line up to its first colon
  (the line without its last code unit when it has no colon), the value what follows the
  colon (the whole line when it has none), trimmed. The line is accepted when
  \<^verbatim>\<open>Headers.append\<close> takes this name and value.
\<close>

definition headerLineName :: "string \<Rightarrow> string" where
  "headerLineName line = slice line 0 (indexOf line '':'')"

definition headerLineValue :: "string \<Rightarrow> string" where
  "headerLineValue line = normalizeValue (trim (slice_from line (indexOf line '':'' + 1)))"

definition headerLineOk :: "string \<Rightarrow> bool" where
  "headerLineOk line = (isHeaderName (headerLineName line) \<and> isHeaderValue (headerLineValue line))"

text \<open>
  The two halves of \<^verbatim>\<open>parseMultipartResponse\<close> by name: the parts cut from a body for a
  boundary, and the body of its loop for one part.
\<close>

definition partsOf :: "string \<Rightarrow> string \<Rightarrow> error + (Headers \<times> string) list" where
  "partsOf body boundary =
     (let endBoundaryIndex = indexOf body (''--'' @ boundary @ ''--'');
          trimmedBody = (if 0 \<le> endBoundaryIndex then slice body 0 endBoundaryIndex else body)
      in mapE splitPart (drop 1 (split_str trimmedBody (''--'' @ boundary @ CRLF))))"

definition decodePart :: "Headers \<times> string \<Rightarrow> error + Response list" where
  "decodePart =
     (\<lambda>(headers', body').
        case Headers_get headers' ''Content-Type'' of
          None \<Rightarrow> Inl (Error ''Multipart part is missing content-type header'')
        | Some contentType \<Rightarrow>
            if contentType = []
            then Inl (Error ''Multipart part is missing content-type header'')
            else if contentType = ''application/http''
            then (case parseHttpResponse body' of
                    Inl e \<Rightarrow> Inl e
                  | Inr response \<Rightarrow> Inr [response])
            else if startsWith contentType ''multipart/mixed''
            then parseMultipartResponse body' headers'
            else Inl (Error (''Unknown content-type: '' @ contentType)))"






definition isMixed :: "string \<Rightarrow> bool" where
  "isMixed contentType = startsWith contentType ''multipart/mixed''"

definition isHttp :: "string \<Rightarrow> bool" where
  "isHttp contentType = (contentType = ''application/http'')"

text \<open>Response headers and bodies for the examples.\<close>

definition exampleHeaders :: Headers where
  "exampleHeaders = [(''content-type'', ''multipart/mixed; boundary=b'')]"



section \<open>Multipart bodies as trees\<close>

text \<open>
  \<open>firstAtEnd D x\<close>: in \<open>x\<close> followed by \<open>D\<close>, the first occurrence of \<open>D\<close> is the one at the
  end. A text is free of the boundary \<open>b\<close> when this holds for \<open>--b\<close>, the start of both the
  delimiter and the closing marker.
\<close>

definition firstAtEnd :: "string \<Rightarrow> string \<Rightarrow> bool" where
  "firstAtEnd D x = (indexOf_nat (x @ D) D = Some (length x))"

definition dashFree :: "string \<Rightarrow> string \<Rightarrow> bool" where
  "dashFree b x = firstAtEnd (''--'' @ b) x"

text \<open>
  The body of a multipart message with boundary \<open>b\<close>: every part after a delimiter line,
  then the closing marker.
\<close>

definition renderBody :: "string \<Rightarrow> string list \<Rightarrow> string" where
  "renderBody b texts = concat (map (\<lambda>t. ''--'' @ b @ CRLF @ t) texts) @ ''--'' @ b @ ''--''"

text \<open>
  A part is either the text of an \<open>application/http\<close> part (its MIME headers, a blank line,
  the response), or a nested message: the text of its MIME headers with the blank line, its
  boundary, its parts, and what follows its closing marker.
\<close>

datatype mime = HttpPart string | MixedPart string string "mime list" string

fun render :: "mime \<Rightarrow> string" where
  "render (HttpPart p) = p"
| "render (MixedPart hb b ts e) = hb @ renderBody b (map render ts) @ e"

text \<open>The responses of the \<open>application/http\<close> parts of a tree, in the order of the wire.\<close>

fun leaves :: "mime \<Rightarrow> string list" where
  "leaves (HttpPart p) = (case splitPart p of Inr (h, raw) \<Rightarrow> [raw] | Inl err \<Rightarrow> [])"
| "leaves (MixedPart hb b ts e) = concat (map leaves ts)"

text \<open>
  A tree is well formed when \<^verbatim>\<open>splitPart\<close> reads from every part its MIME headers and from
  these the content type the part has, for a nested message also its boundary; when no
  boundary holds a carriage return; and when the text of a part is free of the boundary of
  the message it is a part of.
\<close>

fun wellFormed :: "mime \<Rightarrow> bool" where
  "wellFormed (HttpPart p) =
     (case splitPart p of
        Inr (h, raw) \<Rightarrow> Headers_get h ''Content-Type'' = Some ''application/http''
      | Inl err \<Rightarrow> False)"
| "wellFormed (MixedPart hb b ts e) =
     ((case splitPart (hb @ renderBody b (map render ts) @ e) of
         Inr (h, bd) \<Rightarrow>
           bd = renderBody b (map render ts) @ e
           \<and> (case Headers_get h ''Content-Type'' of
                Some ct \<Rightarrow> startsWith ct ''multipart/mixed''
              | None \<Rightarrow> False)
           \<and> getBoundary h = Inr b
       | Inl err \<Rightarrow> False)
      \<and> CHR 0x0D \<notin> set b
      \<and> list_all (\<lambda>t. dashFree b (render t) \<and> wellFormed t) ts)"

fun depth :: "mime \<Rightarrow> nat" where
  "depth (HttpPart p) = 0"
| "depth (MixedPart hb b ts e) = Suc (foldr max (map depth ts) 0)"

text \<open>The headers and the body that \<^verbatim>\<open>splitPart\<close> reads from the text of a part.\<close>

definition partOf :: "mime \<Rightarrow> Headers \<times> string" where
  "partOf t = (case splitPart (render t) of Inr p \<Rightarrow> p | Inl err \<Rightarrow> ([], []))"

text \<open>A body of three levels for the examples, with four responses.\<close>

definition exampleHttp :: "string \<Rightarrow> string \<Rightarrow> string" where
  "exampleHttp code body =
     ''Content-Type: application/http'' @ CRLF @ CRLF
     @ ''HTTP/1.1 '' @ code @ '' Status'' @ CRLF @ CRLF @ body @ CRLF"

definition exampleMixed :: "string \<Rightarrow> mime list \<Rightarrow> mime" where
  "exampleMixed b ts =
     MixedPart (''Content-Type: multipart/mixed; boundary='' @ b @ CRLF @ CRLF) b ts CRLF"

definition exampleTree :: "mime list" where
  "exampleTree =
     [HttpPart (exampleHttp ''200'' ''one''),
      exampleMixed ''d''
        [exampleMixed ''c'' [HttpPart (exampleHttp ''201'' ''two''), HttpPart (exampleHttp ''202'' ''three'')]],
      HttpPart (exampleHttp ''404'' ''four'')]"

definition exampleResponse :: "nat \<Rightarrow> string \<Rightarrow> Response" where
  "exampleResponse code body =
     \<lparr> res_status = code, res_statusText = ''Status'',
       res_headers = [(''content-type'', ''text/plain;charset=UTF-8'')], res_body = body \<rparr>"

section \<open>A multipart response that matches an envelope\<close>












section \<open>Identity Token Manager\<close>

text \<open>
  Modelled from the spec: the Identity Token Manager (\<^verbatim>\<open>ClarisId\<close>). Its source file is not
  among the sources, only its tests are; every definition of this section follows sections
  3, 4.1, 5 and 9 of the specification.
\<close>

text \<open>
  Modelled from the spec: the session, a bundle of three tokens; the identity token carries
  its expiry.
\<close>

record Session =
  accessToken :: string
  idToken :: string
  refreshToken :: string
  idTokenExpiry :: int

text \<open>
  Modelled from the spec: what the external collaborators answer while one acquisition
  runs: the current time, the remote configuration endpoint (an error or the two
  identifiers), and the two capabilities of the identity provider, \<open>authenticate\<close> (with the
  identifiers and the credentials) and \<open>refresh\<close> (with the session), each giving a session
  or the reason of its failure.
\<close>

record Provider =
  now :: int
  fetchConfig :: "string + (string \<times> string)"
  authenticate :: "string \<times> string \<Rightarrow> string \<Rightarrow> string \<Rightarrow> string + Session"
  refresh :: "Session \<Rightarrow> string + Session"

text \<open>
  Modelled from the spec: the state of one manager. \<open>userSession\<close> is the cached session,
  \<open>configCache\<close> the remote configuration once it is fetched, \<open>pending\<close> says that the pending
  acquisition handle exists and \<open>waiting\<close> how many callers await it. \<open>delivered\<close> lists the
  results given to callers so far, and the three counters count the invocations of the
  collaborators.
\<close>

record Manager =
  username :: string
  password :: string
  userSession :: "Session option"
  configCache :: "(string \<times> string) option"
  pending :: bool
  waiting :: nat
  delivered :: "(string + string) list"
  fetchCalls :: nat
  authenticateCalls :: nat
  refreshCalls :: nat

text \<open>
  Modelled from the spec (4.1, step 2): the cached identity token, when a session is cached
  and its identity token is not expired at the time \<open>t\<close>, without any margin.
\<close>

definition cachedToken :: "int \<Rightarrow> Manager \<Rightarrow> string option" where
  "cachedToken t m =
     (case userSession m of
        None \<Rightarrow> None
      | Some s \<Rightarrow> if t < idTokenExpiry s then Some (idToken s) else None)"

text \<open>
  Modelled from the spec (4.1, step 5): the remote configuration is fetched on first need and
  kept; a failed fetch is the error "Could not fetch user pool config" and caches nothing.
\<close>

definition loadConfig :: "Provider \<Rightarrow> Manager \<Rightarrow> (string + (string \<times> string)) \<times> Manager" where
  "loadConfig env m =
     (case configCache m of
        Some c \<Rightarrow> (Inr c, m)
      | None \<Rightarrow>
          (case fetchConfig env of
             Inl e \<Rightarrow> (Inl ''Could not fetch user pool config'', m \<lparr> fetchCalls := Suc (fetchCalls m) \<rparr>)
           | Inr c \<Rightarrow> (Inr c, m \<lparr> configCache := Some c, fetchCalls := Suc (fetchCalls m) \<rparr>)))"

text \<open>
  Modelled from the spec (4.1, step 4): full authentication with the identifiers of the
  remote configuration; success stores the session and gives its identity token, failure
  gives the error of the provider unchanged.
\<close>

definition authenticateFull :: "Provider \<Rightarrow> Manager \<Rightarrow> (string + string) \<times> Manager" where
  "authenticateFull env m =
     (case loadConfig env m of
        (Inl e, m1) \<Rightarrow> (Inl e, m1)
      | (Inr c, m1) \<Rightarrow>
          (let m2 = m1 \<lparr> authenticateCalls := Suc (authenticateCalls m1) \<rparr>
           in case authenticate env c (username m) (password m) of
                Inl e \<Rightarrow> (Inl e, m2)
              | Inr s \<Rightarrow> (Inr (idToken s), m2 \<lparr> userSession := Some s \<rparr>)))"

text \<open>
  Modelled from the spec (4.1, steps 2 to 4): one acquisition sequence. A cached token that
  is not expired is returned without a network call; an expired session is refreshed, and
  when the refresh fails the session is discarded and the manager authenticates afresh; with
  no session it authenticates.
\<close>

definition acquire :: "Provider \<Rightarrow> Manager \<Rightarrow> (string + string) \<times> Manager" where
  "acquire env m =
     (case userSession m of
        None \<Rightarrow> authenticateFull env m
      | Some s \<Rightarrow>
          if now env < idTokenExpiry s then (Inr (idToken s), m)
          else (let m1 = m \<lparr> refreshCalls := Suc (refreshCalls m) \<rparr>
                in case refresh env s of
                     Inr s' \<Rightarrow> (Inr (idToken s'), m1 \<lparr> userSession := Some s' \<rparr>)
                   | Inl e \<Rightarrow> authenticateFull env (m1 \<lparr> userSession := None \<rparr>)))"

text \<open>
  Modelled from the spec (6): the authorization header is the scheme \<open>FMID\<close>, a space and
  the identity token.
\<close>

definition getAuthorizationHeader :: "Provider \<Rightarrow> Manager \<Rightarrow> (string + string) \<times> Manager" where
  "getAuthorizationHeader env m =
     (case acquire env m of
        (Inl e, m') \<Rightarrow> (Inl e, m')
      | (Inr token, m') \<Rightarrow> (Inr (''FMID '' @ token), m'))"

text \<open>
  Modelled from the spec (4.1, step 1; 5; 9): the manager under overlapping callers, on one
  cooperative task stream. \<open>Invoke t\<close> is a caller invoking "get authorization header" at
  the time \<open>t\<close>: it attaches to the pending handle if there is one, is answered at once
  from a cached token that is not expired, and otherwise creates the handle and starts the
  acquisition. \<open>Settle env\<close> is the acquisition in flight settling with the answers \<open>env\<close> of
  the collaborators: the handle is cleared and every caller that awaits it gets the result.
\<close>

datatype event = Invoke int | Settle Provider

definition step :: "Manager \<Rightarrow> event \<Rightarrow> Manager" where
  "step m ev =
     (case ev of
        Invoke t \<Rightarrow>
          if pending m then m \<lparr> waiting := Suc (waiting m) \<rparr>
          else (case cachedToken t m of
                  Some token \<Rightarrow> m \<lparr> delivered := delivered m @ [Inr (''FMID '' @ token)] \<rparr>
                | None \<Rightarrow> m \<lparr> pending := True, waiting := 1 \<rparr>)
      | Settle env \<Rightarrow>
          if pending m
          then (let (result, m') = getAuthorizationHeader env m
                in m' \<lparr> pending := False, waiting := 0,
                        delivered := delivered m' @ replicate (waiting m) result \<rparr>)
          else m)"

definition run :: "Manager \<Rightarrow> event list \<Rightarrow> Manager" where
  "run m evs = foldl step m evs"

text \<open>A manager that has just been made, and collaborators that answer, for the examples.\<close>

definition newManager :: "string \<Rightarrow> string \<Rightarrow> Manager" where
  "newManager u p =
     \<lparr> username = u, password = p, userSession = None, configCache = None, pending = False,
       waiting = 0, delivered = [], fetchCalls = 0, authenticateCalls = 0, refreshCalls = 0 \<rparr>"

definition exampleSession :: "string \<Rightarrow> int \<Rightarrow> Session" where
  "exampleSession token expiry =
     \<lparr> accessToken = ''access'', idToken = token, refreshToken = ''refresh'', idTokenExpiry = expiry \<rparr>"

definition exampleProvider :: "int \<Rightarrow> Provider" where
  "exampleProvider t =
     \<lparr> now = t, fetchConfig = Inr (''pool'', ''client''),
       authenticate = (\<lambda>c u p. if u = ''foo'' \<and> p = ''bar''
                                then Inr (exampleSession ''token1'' (t + 3600))
                                else Inl ''authenticateError''),
       refresh = (\<lambda>s. Inr (exampleSession ''token2'' (t + 3600))) \<rparr>"

section \<open>Grouping: the constructor against the specification\<close>

lemma requestsOf_groupRuns: "requestsOf (groupRuns ops) = ops"
  by (induction ops rule: groupRuns.induct) auto

lemma itemOk_groupRuns: "list_all itemOk (groupRuns ops)"
proof (induction ops rule: groupRuns.induct)
  case 1
  then show ?case by simp
next
  case (2 r rs)
  have "list_all (\<lambda>r. req_method r \<noteq> ''GET'') (takeWhile (\<lambda>x. req_method x \<noteq> ''GET'') rs)"
    by (auto simp: list_all_iff dest: set_takeWhileD)
  with 2 show ?case by simp
qed

lemma groupRuns_dropWhile_head:
  "groupRuns (dropWhile (\<lambda>x. req_method x \<noteq> ''GET'') rs) = ChangesetOf b # es \<Longrightarrow> False"
proof -
  assume a: "groupRuns (dropWhile (\<lambda>x. req_method x \<noteq> ''GET'') rs) = ChangesetOf b # es"
  show False
  proof (cases "dropWhile (\<lambda>x. req_method x \<noteq> ''GET'') rs")
    case Nil
    with a show ?thesis by simp
  next
    case (Cons x xs)
    then have "req_method x = ''GET''"
      using hd_dropWhile [of "\<lambda>x. req_method x \<noteq> ''GET''" rs] by auto
    with a Cons show ?thesis by simp
  qed
qed

lemma maximalRuns_groupRuns: "maximalRuns (groupRuns ops)"
proof (induction ops rule: groupRuns.induct)
  case 1
  then show ?case by simp
next
  case (2 r rs)
  show ?case
  proof (cases "req_method r = ''GET''")
    case True
    with 2 show ?thesis by simp
  next
    case False
    let ?d = "groupRuns (dropWhile (\<lambda>x. req_method x \<noteq> ''GET'') rs)"
    from 2 False have m: "maximalRuns ?d" by simp
    show ?thesis
    proof (cases ?d)
      case Nil
      with False show ?thesis by simp
    next
      case (Cons e es)
      then obtain q where "e = Operation q"
        using groupRuns_dropWhile_head [of rs] by (cases e) auto
      with Cons m False show ?thesis by simp
    qed
  qed
qed

lemma envelope_append_fresh:
  "list_all (\<lambda>a. a \<noteq> b) (addresses es) \<Longrightarrow>
   map (resolve (f (b := v))) es = map (resolve f) es"
  by (induction es rule: addresses.induct) auto

lemma addresses_append: "addresses (es @ fs) = addresses es @ addresses fs"
  by (induction es rule: addresses.induct) auto

lemma addRequest_storeOk: "storeOk this \<Longrightarrow> storeOk (addRequest this r)"
  apply (auto simp: storeOk_def addRequest_def Let_def addresses_append list_all_iff split: option.splits)
  done


lemma addRequest_envelope:
  assumes "storeOk this"
  shows "envelope (addRequest this r) =
     (if req_method r = ''GET'' then envelope this @ [Operation r]
      else case lastChangeset this of
             None \<Rightarrow> envelope this @ [ChangesetOf [r]]
           | Some a \<Rightarrow> butlast (envelope this) @ [ChangesetOf (arrays this a @ [r])])"
proof (cases "req_method r = ''GET''")
  case True
  then show ?thesis by (simp add: addRequest_def envelope_def)
next
  case False
  show ?thesis
  proof (cases "lastChangeset this")
    case None
    from assms have "list_all (\<lambda>a. a \<noteq> allocated this) (addresses (operations this))"
      by (auto simp: storeOk_def list_all_iff)
    with False None show ?thesis
      by (simp add: addRequest_def envelope_def envelope_append_fresh)
  next
    case (Some a)
    with assms obtain es where es: "operations this = es @ [Changeset a]"
      by (auto simp: storeOk_def) (metis append_butlast_last_id)
    with assms have "list_all (\<lambda>b. b \<noteq> a) (addresses es)"
      by (auto simp: storeOk_def addresses_append list_all_iff)
    with False Some es show ?thesis
      by (simp add: addRequest_def envelope_def envelope_append_fresh butlast_append)
  qed
qed

lemma addRequest_lastChangeset:
  "lastChangeset (addRequest this r) =
     (if req_method r = ''GET'' then None
      else case lastChangeset this of None \<Rightarrow> Some (allocated this) | Some a \<Rightarrow> Some a)"
  by (simp add: addRequest_def Let_def split: option.splits)

lemma addRequest_open_array:
  "req_method r \<noteq> ''GET'' \<Longrightarrow> lastChangeset (addRequest this r) = Some b \<Longrightarrow>
   arrays (addRequest this r) b =
     (case lastChangeset this of None \<Rightarrow> [r] | Some a \<Rightarrow> arrays this a @ [r])"
  by (auto simp: addRequest_def Let_def split: option.splits)

lemma envelope_open_last:
  assumes "storeOk this" and "lastChangeset this = Some a"
  shows "butlast (envelope this) @ [ChangesetOf (arrays this a)] = envelope this"
proof -
  from assms have "operations this \<noteq> []" "last (operations this) = Changeset a"
    by (auto simp: storeOk_def)
  then have "operations this = butlast (operations this) @ [Changeset a]"
    using append_butlast_last_id [of "operations this"] by simp
  then obtain es where "operations this = es @ [Changeset a]" ..
  then show ?thesis by (simp add: envelope_def)
qed

lemma foldl_addRequest_envelope:
  "storeOk this \<Longrightarrow>
   envelope (foldl addRequest this ops) =
     (case lastChangeset this of
        None \<Rightarrow> envelope this @ groupRuns ops
      | Some a \<Rightarrow>
          butlast (envelope this)
          @ [ChangesetOf (arrays this a @ takeWhile (\<lambda>x. req_method x \<noteq> ''GET'') ops)]
          @ groupRuns (dropWhile (\<lambda>x. req_method x \<noteq> ''GET'') ops))"
proof (induction ops arbitrary: this)
  case Nil
  then show ?case
    by (auto simp: envelope_open_last split: option.splits)
next
  case (Cons r ops)
  have ok: "storeOk (addRequest this r)" using Cons.prems by (rule addRequest_storeOk)
  note IH = Cons.IH [OF ok]
  note env = addRequest_envelope [OF Cons.prems, of r]
  show ?case
  proof (cases "req_method r = ''GET''")
    case True
    then have "lastChangeset (addRequest this r) = None"
      by (simp add: addRequest_lastChangeset)
    with IH env True have "envelope (foldl addRequest this (r # ops))
        = envelope this @ Operation r # groupRuns ops" by simp
    then show ?thesis using True Cons.prems
      by (auto simp: envelope_open_last split: option.splits)
  next
    case False
    then obtain b where b: "lastChangeset (addRequest this r) = Some b"
      by (cases "lastChangeset this") (auto simp: addRequest_lastChangeset)
    note arr = addRequest_open_array [OF False b]
    show ?thesis
    proof (cases "lastChangeset this")
      case None
      with IH env b arr False show ?thesis by simp
    next
      case (Some a)
      with IH env b arr False show ?thesis by simp
    qed
  qed
qed

lemma new_BatchRequest_lastChangeset:
  "lastChangeset (new_BatchRequest endpoint auth ops) = None
   \<longleftrightarrow> ops = [] \<or> req_method (last ops) = ''GET''"
proof (cases ops rule: rev_cases)
  case Nil
  then show ?thesis by (simp add: new_BatchRequest_def)
next
  case (snoc xs x)
  then show ?thesis
    by (simp add: new_BatchRequest_def addRequest_lastChangeset split: option.splits)
qed

lemma storeOk_initial:
  "storeOk \<lparr> serviceEndpoint = endpoint, authorizationHeader = auth, arrays = (\<lambda>a. []),
         allocated = 0, operations = [], lastChangeset = None \<rparr>"
  by (simp add: storeOk_def)



lemma envelope_new_BatchRequest: "envelope (new_BatchRequest endpoint auth ops) = groupRuns ops"
  unfolding new_BatchRequest_def
  by (simp add: foldl_addRequest_envelope [OF storeOk_initial]) (simp add: envelope_def)

section \<open>What encoding does to the operations\<close>










section \<open>Headers of the serialized parts and of the outer request\<close>






section \<open>Splitting a part into headers and body\<close>

lemma appendRawHeaders_ok:
  "list_all headerLineOk lines \<Longrightarrow>
   appendRawHeaders hs lines = Inr (hs @ map (\<lambda>l. (headerLineName l, headerLineValue l)) lines)"
  by (induction lines arbitrary: hs)
    (simp_all add: Let_def Headers_append_def headerLineOk_def headerLineName_def headerLineValue_def)

lemma appendRawHeaders_bad:
  "\<not> list_all headerLineOk lines \<Longrightarrow>
   \<exists>m. appendRawHeaders hs lines = Inl (TypeError m)"
  by (induction lines arbitrary: hs)
    (auto simp: Let_def Headers_append_def headerLineOk_def headerLineName_def headerLineValue_def)

lemma slice_to_minus_one: "slice s 0 (- 1) = butlast s"
proof -
  have "nat (max (int (length s) - 1) 0) = length s - 1"
    by (simp add: max_def) linarith
  then show ?thesis
    by (simp add: slice_def slice_index_def Let_def butlast_conv_take)
qed

lemma slice_to_nat: "slice s 0 (int i) = take i s"
  by (simp add: slice_def slice_index_def Let_def min_def)

lemma slice_from_nat: "slice_from s (int i) = drop i s"
  by (simp add: slice_from_def slice_index_def min_def)

lemma slice_from_nat_add: "slice_from s (int i + int j) = drop (i + j) s"
  using slice_from_nat [of s "i + j"] by simp

lemma splitPart_cases:
  "splitPart part =
     (if startsWith part CRLF then Inr ([], drop 2 part)
      else case indexOf_nat part (CRLF @ CRLF) of
             None \<Rightarrow> (case appendRawHeaders [] (split_str (butlast part) CRLF) of
                        Inl e \<Rightarrow> Inl e | Inr hs \<Rightarrow> Inr (hs, drop 3 part))
           | Some i \<Rightarrow> (case appendRawHeaders [] (split_str (take i part) CRLF) of
                        Inl e \<Rightarrow> Inl e | Inr hs \<Rightarrow> Inr (hs, drop (i + 4) part)))"
proof -
  have "slice_from part (int i + 4) = drop (i + 4) part" for i
    using slice_from_nat [of part "i + 4"] by simp
  moreover have "slice_from part 3 = drop 3 part"
    using slice_from_nat [of part 3] by simp
  ultimately show ?thesis
    by (auto simp: splitPart_def indexOf_def Let_def slice_to_minus_one slice_to_nat
        split: option.splits sum.splits)
qed


lemma splitHeaders_bad:
  "\<not> list_all headerLineOk lines \<Longrightarrow>
   \<exists>m. (case appendRawHeaders [] lines of Inl e \<Rightarrow> Inl e | Inr hs \<Rightarrow> Inr (hs, b))
        = Inl (TypeError m)"
  using appendRawHeaders_bad [of lines "[]"] by auto

section \<open>Parsing one response\<close>



section \<open>The multipart decoder, unfolded\<close>

lemma parseMultipartResponse_unfold:
  "parseMultipartResponse body headers =
     (case getBoundary headers of
        Inl e \<Rightarrow> Inl e
      | Inr boundary \<Rightarrow>
          (case partsOf body boundary of
             Inl e \<Rightarrow> Inl e
           | Inr parts \<Rightarrow> forParts decodePart [] parts))"
  by (subst parseMultipartResponse.simps) (simp only: partsOf_def decodePart_def Let_def)


lemma forParts_acc:
  "forParts f acc ps = (case forParts f [] ps of Inl e \<Rightarrow> Inl e | Inr rs \<Rightarrow> Inr (acc @ rs))"
proof (induction ps arbitrary: acc)
  case Nil
  then show ?case by simp
next
  case (Cons p ps)
  show ?case
  proof (cases "f p")
    case (Inl e)
    then show ?thesis by simp
  next
    case (Inr rs)
    then show ?thesis
      using Cons.IH [of "acc @ rs"] Cons.IH [of rs]
      by (simp split: sum.splits)
  qed
qed

lemma forParts_Cons:
  "forParts f [] (p # ps) =
     (case f p of Inl e \<Rightarrow> Inl e
      | Inr rs \<Rightarrow> (case forParts f [] ps of Inl e \<Rightarrow> Inl e | Inr rs' \<Rightarrow> Inr (rs @ rs')))"
proof (cases "f p")
  case (Inl e)
  then show ?thesis by simp
next
  case (Inr rs)
  then show ?thesis using forParts_acc [of f rs ps] by simp
qed













lemma decodePart_http:
  "Headers_get h ''Content-Type'' = Some ct \<Longrightarrow> isHttp ct \<Longrightarrow>
   decodePart (h, b) = (case parseHttpResponse b of Inl e \<Rightarrow> Inl e | Inr r \<Rightarrow> Inr [r])"
  by (simp add: decodePart_def isHttp_def)

lemma decodePart_mixed:
  "Headers_get h ''Content-Type'' = Some ct \<Longrightarrow> isMixed ct \<Longrightarrow>
   decodePart (h, b) = parseMultipartResponse b h"
  by (auto simp: decodePart_def startsWith_def isMixed_def)






section \<open>Occurrences of a boundary, and bodies rendered from trees\<close>

lemma indexOf_nat_Some_iff:
  "indexOf_nat s p = Some i \<longleftrightarrow>
     i \<le> length s \<and> prefix p (drop i s) \<and> (\<forall>j<i. \<not> prefix p (drop j s))"
proof (induction s arbitrary: i)
  case Nil
  then show ?case by auto
next
  case (Cons c cs)
  show ?case
  proof (cases "prefix p (c # cs)")
    case True
    then show ?thesis by (cases i) auto
  next
    case False
    show ?thesis
    proof (cases i)
      case 0
      with False show ?thesis by simp
    next
      case (Suc k)
      with False Cons.IH [of k] show ?thesis
        by (simp add: All_less_Suc2)
    qed
  qed
qed

lemma indexOf_nat_None_iff:
  "indexOf_nat s p = None \<longleftrightarrow> (\<forall>j\<le>length s. \<not> prefix p (drop j s))"
proof (induction s)
  case Nil
  then show ?case by auto
next
  case (Cons c cs)
  have "(\<forall>j\<le>Suc (length cs). \<not> prefix p (drop j (c # cs)))
      \<longleftrightarrow> \<not> prefix p (c # cs) \<and> (\<forall>j\<le>length cs. \<not> prefix p (drop j cs))"
    using All_less_Suc2 [of "Suc (length cs)" "\<lambda>j. \<not> prefix p (drop j (c # cs))"]
    by (simp add: less_Suc_eq_le)
  with Cons show ?case by simp
qed

lemma prefix_drop_append:
  assumes "j + length p \<le> length u"
  shows "prefix p (drop j (u @ v)) \<longleftrightarrow> prefix p (drop j u)"
proof -
  from assms have d: "drop j (u @ v) = drop j u @ v" and l: "length p \<le> length (drop j u)"
    by simp_all
  show ?thesis
  proof
    assume "prefix p (drop j (u @ v))"
    then have "prefix p (drop j u @ v)" by (simp only: d)
    then consider "prefix p (drop j u)" | us where "p = drop j u @ us"
      by (auto simp: prefix_append)
    then show "prefix p (drop j u)"
    proof cases
      case 1
      then show ?thesis .
    next
      case 2
      with l have "us = []" by simp
      with 2 show ?thesis by simp
    qed
  next
    assume "prefix p (drop j u)"
    then show "prefix p (drop j (u @ v))" by (simp add: d prefix_append)
  qed
qed

lemma firstAtEnd_no_early:
  assumes "firstAtEnd D x" and "j < length x"
  shows "\<not> prefix (D @ z) (drop j (x @ D @ w))"
proof
  assume "prefix (D @ z) (drop j (x @ D @ w))"
  then have "prefix D (drop j ((x @ D) @ w))" by (simp add: append_prefixD)
  moreover from assms(2) have "j + length D \<le> length (x @ D)" by simp
  ultimately have "prefix D (drop j (x @ D))"
    by (simp only: prefix_drop_append)
  with assms show False
    by (simp add: firstAtEnd_def indexOf_nat_Some_iff)
qed

lemma firstAtEnd_first:
  assumes "firstAtEnd D x"
  shows "indexOf_nat (x @ D @ z @ w) (D @ z) = Some (length x)"
proof -
  have "\<not> prefix (D @ z) (drop j (x @ D @ z @ w))" if "j < length x" for j
    using firstAtEnd_no_early [OF assms that, of z "z @ w"] .
  then show ?thesis
    by (simp add: indexOf_nat_Some_iff)
qed

lemma firstAtEnd_none:
  assumes "firstAtEnd D x" and "D \<noteq> []"
  shows "indexOf_nat x (D @ z) = None"
proof -
  have "\<not> prefix (D @ z) (drop j x)" if "j \<le> length x" for j
  proof
    assume p: "prefix (D @ z) (drop j x)"
    then have pd: "prefix D (drop j x)" by (simp add: append_prefixD)
    then have "length D \<le> length x - j" by (auto dest: prefix_length_le)
    with assms(2) have j: "j < length x" and le: "j + length D \<le> length x"
      by (cases D; simp)+
    from pd le have "prefix D (drop j (x @ D))" by (simp only: prefix_drop_append)
    with assms(1) j show False by (simp add: firstAtEnd_def indexOf_nat_Some_iff)
  qed
  then show ?thesis by (simp add: indexOf_nat_None_iff)
qed

lemma indexOf_nat_skip:
  assumes "\<And>j. j < length u \<Longrightarrow> \<not> prefix p (drop j (u @ v))"
    and "indexOf_nat v p = Some k"
  shows "indexOf_nat (u @ v) p = Some (length u + k)"
proof -
  from assms(2) have k: "k \<le> length v" "prefix p (drop k v)" "\<And>j. j < k \<Longrightarrow> \<not> prefix p (drop j v)"
    by (simp_all add: indexOf_nat_Some_iff)
  have "\<not> prefix p (drop j (u @ v))" if "j < length u + k" for j
  proof (cases "j < length u")
    case True
    then show ?thesis by (rule assms(1))
  next
    case False
    with that have "j - length u < k" by simp
    from k(3) [OF this] False show ?thesis by simp
  qed
  with k(1,2) show ?thesis by (simp add: indexOf_nat_Some_iff)
qed


lemma prefix_drop_nth:
  assumes "prefix xs (drop j ys)" and "i < length xs"
  shows "ys ! (j + i) = xs ! i"
proof -
  from assms(1) obtain zs where z: "drop j ys = xs @ zs" by (auto simp: prefix_def)
  then have "length xs \<le> length ys - j" by (metis length_append length_drop le_add1)
  with assms(2) have "j \<le> length ys" by simp
  then have "ys ! (j + i) = drop j ys ! i" by simp
  with z assms(2) show ?thesis by (simp add: nth_append)
qed

lemma no_close_in_delimiter:
  assumes "CHR 0x0D \<notin> set c" and "c \<noteq> []" and "hd c \<noteq> CHR 0x0A"
    and "length D < length c" and "j < length D + 2"
  shows "\<not> prefix c (drop j (D @ CRLF @ v))"
proof
  assume p: "prefix c (drop j (D @ CRLF @ v))"
  show False
  proof (cases "j \<le> length D")
    case True
    let ?i = "length D - j"
    from True assms(4) have i: "?i < length c" by simp
    from prefix_drop_nth [OF p i] have "(D @ CRLF @ v) ! (j + ?i) = c ! ?i" .
    with True have "c ! ?i = CHR 0x0D" by (simp add: nth_append CRLF_def)
    with i assms(1) show False by (metis nth_mem)
  next
    case False
    with assms(5) have "j = Suc (length D)" by simp
    then have "drop j (D @ CRLF @ v) = CHR 0x0A # v" by (simp add: CRLF_def)
    with p assms(2,3) show False by (cases c) auto
  qed
qed

lemma firstAtEnd_first':
  "firstAtEnd D x \<Longrightarrow> d = D @ z \<Longrightarrow> indexOf_nat (x @ d @ w) d = Some (length x)"
  using firstAtEnd_first [of D x z w] by simp

lemma firstAtEnd_none':
  "firstAtEnd D x \<Longrightarrow> D \<noteq> [] \<Longrightarrow> d = D @ z \<Longrightarrow> indexOf_nat x d = None"
  using firstAtEnd_none [of D x z] by simp

lemma split_str_delimited:
  assumes "D \<noteq> []" and d: "d = D @ z"
    and "firstAtEnd D pre" and "\<And>x. x \<in> set xs \<Longrightarrow> firstAtEnd D x"
  shows "split_str (pre @ concat (map ((@) d) xs)) d = pre # xs"
  using assms(3,4)
proof (induction xs arbitrary: pre)
  case Nil
  have "d \<noteq> []" using assms(1) d by simp
  with firstAtEnd_none' [OF Nil(1) assms(1) d] show ?case
    by (subst split_str.simps) simp
next
  case (Cons x xs)
  let ?rest = "concat (map ((@) d) xs)"
  have ne: "d \<noteq> []" using assms(1) d by simp
  have i: "indexOf_nat (pre @ d @ x @ ?rest) d = Some (length pre)"
    using firstAtEnd_first' [OF Cons.prems(1) d] .
  have "split_str (x @ ?rest) d = x # xs"
    using Cons.IH [of x] Cons.prems(2) by simp
  with i ne show ?case
    by (subst split_str.simps) simp
qed

lemma close_marker_index:
  assumes "CHR 0x0D \<notin> set c" and "hd c \<noteq> CHR 0x0A" and c: "c = D @ z" and "z \<noteq> []"
    and d: "d = D @ CRLF"
    and "firstAtEnd D pre" and "\<And>x. x \<in> set xs \<Longrightarrow> firstAtEnd D x"
  shows "indexOf_nat (pre @ concat (map ((@) d) xs) @ c @ e) c
           = Some (length (pre @ concat (map ((@) d) xs)))"
  using assms(6,7)
proof (induction xs arbitrary: pre)
  case Nil
  from firstAtEnd_first' [OF Nil(1) c, of e] show ?case by simp
next
  case (Cons x xs)
  let ?rest = "concat (map ((@) d) xs) @ c @ e"
  have IH: "indexOf_nat (x @ ?rest) c = Some (length (x @ concat (map ((@) d) xs)))"
    using Cons.IH [of x] Cons.prems(2) by simp
  have none: "\<not> prefix c (drop j ((pre @ d) @ x @ ?rest))" if "j < length (pre @ d)" for j
  proof (cases "j < length pre")
    case True
    from firstAtEnd_no_early [OF Cons.prems(1) True, of z "CRLF @ x @ ?rest"] show ?thesis
      by (simp add: c d)
  next
    case False
    with that have "j - length pre < length D + 2" by (simp add: d CRLF_def)
    moreover from c assms(4) have "c \<noteq> []" "length D < length c" by auto
    ultimately have "\<not> prefix c (drop (j - length pre) (D @ CRLF @ x @ ?rest))"
      using assms(1,2) by (intro no_close_in_delimiter)
    with False show ?thesis by (simp add: d)
  qed
  from indexOf_nat_skip [OF none IH] show ?case by simp
qed


lemma partsOf_rendered:
  assumes "CHR 0x0D \<notin> set b" and "dashFree b pre" and "\<And>x. x \<in> set xs \<Longrightarrow> dashFree b x"
  shows "partsOf (pre @ renderBody b xs @ e) b = mapE splitPart xs"
proof -
  define D where "D = ''--'' @ b"
  define c where "c = D @ ''--''"
  define d where "d = D @ CRLF"
  define mid where "mid = pre @ concat (map ((@) d) xs)"
  have fe: "firstAtEnd D pre" "\<And>x. x \<in> set xs \<Longrightarrow> firstAtEnd D x"
    using assms(2,3) by (simp_all add: dashFree_def D_def)
  have tx: "pre @ renderBody b xs @ e = mid @ c @ e"
  proof -
    have "(\<lambda>t. ''--'' @ b @ CRLF @ t) = (@) d" by (rule ext) (simp add: d_def D_def)
    then show ?thesis by (simp add: renderBody_def mid_def c_def D_def)
  qed
  have cr: "CHR 0x0D \<notin> set c" "hd c \<noteq> CHR 0x0A"
    using assms(1) by (simp_all add: c_def D_def)
  have idx: "indexOf_nat (mid @ c @ e) c = Some (length mid)"
    unfolding mid_def
    using close_marker_index [OF cr c_def _ d_def fe, of xs e] by simp
  have split: "split_str mid d = pre # xs"
    unfolding mid_def
    by (rule split_str_delimited [OF _ d_def fe]) (simp_all add: D_def)
  have "partsOf (mid @ c @ e) b = mapE splitPart (drop 1 (split_str mid d))"
  proof -
    have ceq: "''--'' @ b @ ''--'' = c" and deq: "''--'' @ b @ CRLF = d"
      by (simp_all add: c_def d_def D_def)
    show ?thesis
      unfolding partsOf_def Let_def indexOf_def ceq deq
      by (simp add: idx slice_to_nat)
  qed
  then show ?thesis unfolding tx split by simp
qed


lemma mapE_append:
  "mapE f (xs @ ys) =
     (case mapE f xs of Inl e \<Rightarrow> Inl e
      | Inr a \<Rightarrow> (case mapE f ys of Inl e \<Rightarrow> Inl e | Inr b \<Rightarrow> Inr (a @ b)))"
  by (induction xs) (simp_all split: sum.splits)

lemma forParts_leaves:
  assumes "\<And>t. t \<in> set ts \<Longrightarrow> decodePart (partOf t) = mapE parseHttpResponse (leaves t)"
  shows "forParts decodePart [] (map partOf ts) = mapE parseHttpResponse (concat (map leaves ts))"
  using assms
proof (induction ts)
  case Nil
  then show ?case by simp
next
  case (Cons t ts)
  then show ?case
    by (simp add: forParts_Cons mapE_append del: forParts.simps split: sum.splits)
qed

lemma firstAtEnd_Nil: "firstAtEnd D []"
  by (cases D) (simp_all add: firstAtEnd_def)

lemma wellFormed_splitPart: "wellFormed t \<Longrightarrow> splitPart (render t) = Inr (partOf t)"
  by (cases t) (auto simp: partOf_def split: sum.splits)

lemma parse_rendered:
  assumes "getBoundary headers = Inr b" and "CHR 0x0D \<notin> set b" and "dashFree b pre"
    and "\<And>t. t \<in> set ts \<Longrightarrow> dashFree b (render t)"
    and "\<And>t. t \<in> set ts \<Longrightarrow> splitPart (render t) = Inr (partOf t)"
    and "\<And>t. t \<in> set ts \<Longrightarrow> decodePart (partOf t) = mapE parseHttpResponse (leaves t)"
  shows "parseMultipartResponse (pre @ renderBody b (map render ts) @ e) headers
           = mapE parseHttpResponse (concat (map leaves ts))"
proof -
  have "partsOf (pre @ renderBody b (map render ts) @ e) b = mapE splitPart (map render ts)"
    using assms(2,3,4) by (intro partsOf_rendered) auto
  also have "\<dots> = Inr (map partOf ts)"
    using assms(5) by (induction ts) simp_all
  finally show ?thesis
    using assms(1) forParts_leaves [OF assms(6)]
    by (simp add: parseMultipartResponse_unfold)
qed

lemma decode_tree: "wellFormed t \<Longrightarrow> decodePart (partOf t) = mapE parseHttpResponse (leaves t)"
proof (induction t)
  case (HttpPart p)
  then obtain h raw where s: "splitPart p = Inr (h, raw)"
    and ct: "Headers_get h ''Content-Type'' = Some ''application/http''"
    by (auto split: sum.splits)
  from ct have "decodePart (h, raw)
      = (case parseHttpResponse raw of Inl e \<Rightarrow> Inl e | Inr r \<Rightarrow> Inr [r])"
    by (rule decodePart_http) (simp add: isHttp_def)
  with s show ?case by (simp add: partOf_def split: sum.splits)
next
  case (MixedPart hb b ts e)
  let ?bd = "renderBody b (map render ts) @ e"
  from MixedPart.prems obtain h ct
    where s: "splitPart (hb @ ?bd) = Inr (h, ?bd)"
      and ct: "Headers_get h ''Content-Type'' = Some ct" "startsWith ct ''multipart/mixed''"
      and gb: "getBoundary h = Inr b" and cr: "CHR 0x0D \<notin> set b"
      and ch: "\<And>t. t \<in> set ts \<Longrightarrow> dashFree b (render t) \<and> wellFormed t"
    by (auto simp: list_all_iff split: sum.splits option.splits)
  from s have p: "partOf (MixedPart hb b ts e) = (h, ?bd)" by (simp add: partOf_def)
  have "decodePart (h, ?bd) = parseMultipartResponse ([] @ ?bd) h"
    using decodePart_mixed [OF ct(1), of ?bd] ct(2) by (simp add: isMixed_def)
  also have "\<dots> = mapE parseHttpResponse (concat (map leaves ts))"
    using ch MixedPart.IH
    by (intro parse_rendered [OF gb cr]) (auto simp: dashFree_def firstAtEnd_Nil wellFormed_splitPart)
  finally show ?case by (simp add: p)
qed

section \<open>Replies and the response that matches an envelope\<close>




























text \<open>
  Claim C1. For every list of operations the envelope that the constructor builds is the
  grouping of the specification: the operations keep their order, every \<open>GET\<close> stands alone,
  every changeset is a non-empty run of operations other than \<open>GET\<close>, and no two changesets are
  adjacent (the runs are maximal). No changeset is open after the constructor exactly when the
  list is empty or ends with a \<open>GET\<close>. For \<open>[GET, POST, POST, GET, PATCH]\<close> the envelope is
  \<open>[GET, changeset[POST, POST], GET, changeset[PATCH]]\<close>.
\<close>

theorem batch_grouping:
  "envelope (new_BatchRequest endpoint auth ops) = groupRuns ops
   \<and> requestsOf (envelope (new_BatchRequest endpoint auth ops)) = ops
   \<and> list_all itemOk (envelope (new_BatchRequest endpoint auth ops))
   \<and> maximalRuns (envelope (new_BatchRequest endpoint auth ops))
   \<and> (lastChangeset (new_BatchRequest endpoint auth ops) = None
        \<longleftrightarrow> ops = [] \<or> req_method (last ops) = ''GET'')
   \<and> (\<forall>g1 p1 p2 g2 p3.
         req_method g1 = ''GET'' \<and> req_method p1 = ''POST'' \<and> req_method p2 = ''POST''
         \<and> req_method g2 = ''GET'' \<and> req_method p3 = ''PATCH''
         \<longrightarrow> envelope (new_BatchRequest endpoint auth [g1, p1, p2, g2, p3])
             = [Operation g1, ChangesetOf [p1, p2], Operation g2, ChangesetOf [p3]])"
  by (simp add: envelope_new_BatchRequest requestsOf_groupRuns itemOk_groupRuns
      maximalRuns_groupRuns new_BatchRequest_lastChangeset)

theorem batch_grouping_witness:
  "envelope (new_BatchRequest ''https://host/db'' ''FMID t''
      [exampleRequest ''GET'' ''a'', exampleRequest ''POST'' ''b'', exampleRequest ''POST'' ''c'',
       exampleRequest ''GET'' ''d'', exampleRequest ''PATCH'' ''e''])
   = [Operation (exampleRequest ''GET'' ''a''),
      ChangesetOf [exampleRequest ''POST'' ''b'', exampleRequest ''POST'' ''c''],
      Operation (exampleRequest ''GET'' ''d''),
      ChangesetOf [exampleRequest ''PATCH'' ''e'']]
   \<and> lastChangeset (new_BatchRequest ''https://host/db'' ''FMID t''
      [exampleRequest ''GET'' ''a'', exampleRequest ''POST'' ''b'', exampleRequest ''POST'' ''c'',
       exampleRequest ''GET'' ''d'', exampleRequest ''PATCH'' ''e'']) \<noteq> None
   \<and> list_all itemOk
        [Operation (exampleRequest ''GET'' ''a''),
         ChangesetOf [exampleRequest ''POST'' ''b'', exampleRequest ''POST'' ''c''],
         Operation (exampleRequest ''GET'' ''d''),
         ChangesetOf [exampleRequest ''PATCH'' ''e'']]"
  using batch_grouping [of "''https://host/db''" "''FMID t''"
      "[exampleRequest ''GET'' ''a'', exampleRequest ''POST'' ''b'', exampleRequest ''POST'' ''c'',
        exampleRequest ''GET'' ''d'', exampleRequest ''PATCH'' ''e'']"]
  by (simp add: exampleRequest_def)

section \<open>Round trip\<close>







section \<open>Failures of the multipart decoder\<close>





text \<open>
  Claim C5. Take a multipart body of any depth: a preamble, the parts of a list of trees
  after their delimiter lines, the closing marker and an epilogue, where the response
  headers give the boundary and the trees are well formed. \<^verbatim>\<open>parseMultipartResponse\<close> decodes
  it to the responses of the \<open>application/http\<close> parts of the trees in the order of the wire:
  the result of \<^verbatim>\<open>parseHttpResponse\<close> on each of them in turn, a nested message standing where
  its part stands, however deep it is nested (the first exception of \<^verbatim>\<open>parseHttpResponse\<close>,
  if there is one, is the result). The recursion has no bound on the depth: \<open>mime\<close> trees
  are of any depth, and the function is total by the length of the body alone.
\<close>

theorem nested_decoding:
  "getBoundary headers = Inr b \<and> CHR 0x0D \<notin> set b \<and> dashFree b pre
   \<and> list_all (\<lambda>t. dashFree b (render t) \<and> wellFormed t) ts
   \<longrightarrow> parseMultipartResponse (pre @ renderBody b (map render ts) @ e) headers
       = mapE parseHttpResponse (concat (map leaves ts))"
proof (intro impI, elim conjE)
  assume gb: "getBoundary headers = Inr b" and cr: "CHR 0x0D \<notin> set b" and pre: "dashFree b pre"
    and ts: "list_all (\<lambda>t. dashFree b (render t) \<and> wellFormed t) ts"
  from ts have "\<And>t. t \<in> set ts \<Longrightarrow> dashFree b (render t)"
    and "\<And>t. t \<in> set ts \<Longrightarrow> wellFormed t"
    by (simp_all add: list_all_iff)
  then show "parseMultipartResponse (pre @ renderBody b (map render ts) @ e) headers
       = mapE parseHttpResponse (concat (map leaves ts))"
    by (intro parse_rendered [OF gb cr pre]) (simp_all add: wellFormed_splitPart decode_tree)
qed

theorem nested_decoding_witness:
  "getBoundary exampleHeaders = Inr ''b'' \<and> CHR 0x0D \<notin> set ''b'' \<and> dashFree ''b'' ''preamble''
   \<and> list_all (\<lambda>t. dashFree ''b'' (render t) \<and> wellFormed t) exampleTree
   \<and> map depth exampleTree = [0, 2, 0]
   \<and> parseMultipartResponse (''preamble'' @ renderBody ''b'' (map render exampleTree) @ CRLF)
        exampleHeaders
     = Inr [exampleResponse 200 ''one'', exampleResponse 201 ''two'', exampleResponse 202 ''three'',
            exampleResponse 404 ''four'']"
proof -
  have h: "getBoundary exampleHeaders = Inr ''b''" "CHR 0x0D \<notin> set ''b''" "dashFree ''b'' ''preamble''"
    "list_all (\<lambda>t. dashFree ''b'' (render t) \<and> wellFormed t) exampleTree"
    "map depth exampleTree = [0, 2, 0]"
    by code_simp+
  have r: "mapE parseHttpResponse (concat (map leaves exampleTree))
     = Inr [exampleResponse 200 ''one'', exampleResponse 201 ''two'', exampleResponse 202 ''three'',
            exampleResponse 404 ''four'']"
    by code_simp
  from nested_decoding [of exampleHeaders "''b''" "''preamble''" exampleTree CRLF] h r
  show ?thesis by simp
qed








text \<open>
  Claim C10, as amended. A part that starts with CRLF has no headers and its body is the part
  without that CRLF. A part that neither starts with CRLF nor holds a blank line (CRLF CRLF)
  has its header lines read from the part without its last code unit and its body is the
  part without its first three code units; a part with its first blank line at \<open>i\<close> has its
  header lines read from the first \<open>i\<close> code units and its body after the blank line. In
  both cases \<^verbatim>\<open>splitPart\<close> returns the pair when every header line gives a header name and a
  header value, and otherwise the \<open>TypeError\<close> of \<^verbatim>\<open>Headers.append\<close> leaves it.
\<close>

theorem splitPart_result:
  "(startsWith part CRLF \<longrightarrow> splitPart part = Inr ([], drop 2 part))
   \<and> (\<not> startsWith part CRLF \<and> indexOf part (CRLF @ CRLF) = - 1 \<longrightarrow>
        (list_all headerLineOk (split_str (butlast part) CRLF) \<longrightarrow>
           splitPart part
             = Inr (map (\<lambda>l. (headerLineName l, headerLineValue l)) (split_str (butlast part) CRLF),
                    drop 3 part))
        \<and> (\<not> list_all headerLineOk (split_str (butlast part) CRLF) \<longrightarrow>
             (\<exists>m. splitPart part = Inl (TypeError m))))
   \<and> (\<not> startsWith part CRLF \<and> indexOf part (CRLF @ CRLF) = int i \<longrightarrow>
        (list_all headerLineOk (split_str (take i part) CRLF) \<longrightarrow>
           splitPart part
             = Inr (map (\<lambda>l. (headerLineName l, headerLineValue l)) (split_str (take i part) CRLF),
                    drop (i + 4) part))
        \<and> (\<not> list_all headerLineOk (split_str (take i part) CRLF) \<longrightarrow>
             (\<exists>m. splitPart part = Inl (TypeError m))))"
proof -
  have none: "indexOf part (CRLF @ CRLF) = - 1 \<Longrightarrow> indexOf_nat part (CRLF @ CRLF) = None"
    by (simp add: indexOf_def split: option.splits)
  have some: "indexOf part (CRLF @ CRLF) = int i \<Longrightarrow> indexOf_nat part (CRLF @ CRLF) = Some i"
    by (simp add: indexOf_def split: option.splits)
  show ?thesis
    by (auto simp: splitPart_cases none some appendRawHeaders_ok intro: splitHeaders_bad)
qed

theorem splitPart_result_witness:
  "startsWith (CRLF @ ''x'') CRLF \<and> splitPart (CRLF @ ''x'') = Inr ([], ''x'')
   \<and> \<not> startsWith ''A: b'' CRLF \<and> indexOf ''A: b'' (CRLF @ CRLF) = - 1
   \<and> list_all headerLineOk (split_str (butlast ''A: b'') CRLF)
   \<and> splitPart ''A: b'' = Inr ([(''A'', [])], ''b'')
   \<and> \<not> list_all headerLineOk (split_str (butlast ''a b: c'') CRLF)
   \<and> (\<exists>m. splitPart ''a b: c'' = Inl (TypeError m))
   \<and> indexOf (''A: b'' @ CRLF @ CRLF @ ''x'') (CRLF @ CRLF) = int 4
   \<and> splitPart (''A: b'' @ CRLF @ CRLF @ ''x'') = Inr ([(''A'', ''b'')], ''x'')"
proof -
  have h: "startsWith (CRLF @ ''x'') CRLF" "drop 2 (CRLF @ ''x'') = ''x''"
    "\<not> startsWith ''A: b'' CRLF" "indexOf ''A: b'' (CRLF @ CRLF) = - 1"
    "list_all headerLineOk (split_str (butlast ''A: b'') CRLF)"
    "map (\<lambda>l. (headerLineName l, headerLineValue l)) (split_str (butlast ''A: b'') CRLF) = [(''A'', [])]"
    "\<not> startsWith ''a b: c'' CRLF" "indexOf ''a b: c'' (CRLF @ CRLF) = - 1"
    "\<not> list_all headerLineOk (split_str (butlast ''a b: c'') CRLF)"
    "\<not> startsWith (''A: b'' @ CRLF @ CRLF @ ''x'') CRLF"
    "indexOf (''A: b'' @ CRLF @ CRLF @ ''x'') (CRLF @ CRLF) = int 4"
    "list_all headerLineOk (split_str (take 4 (''A: b'' @ CRLF @ CRLF @ ''x'')) CRLF)"
    "map (\<lambda>l. (headerLineName l, headerLineValue l))
       (split_str (take 4 (''A: b'' @ CRLF @ CRLF @ ''x'')) CRLF) = [(''A'', ''b'')]"
    "drop (4 + 4) (''A: b'' @ CRLF @ CRLF @ ''x'') = ''x''"
    by code_simp+
  from splitPart_result [of "CRLF @ ''x''" 0] h(1,2)
  have 1: "splitPart (CRLF @ ''x'') = Inr ([], ''x'')" by simp
  from splitPart_result [of "''A: b''" 0] h(3,4,5,6)
  have 2: "splitPart ''A: b'' = Inr ([(''A'', [])], ''b'')" by simp
  from splitPart_result [of "''a b: c''" 0] h(7,8,9)
  have 3: "\<exists>m. splitPart ''a b: c'' = Inl (TypeError m)" by blast
  from splitPart_result [of "''A: b'' @ CRLF @ CRLF @ ''x''" 4] h(10,11,12,13,14)
  have 4: "splitPart (''A: b'' @ CRLF @ CRLF @ ''x'') = Inr ([(''A'', ''b'')], ''x'')"
    by simp
  from 1 2 3 4 h show ?thesis by blast
qed

text \<open>
  Claim C10 as stated fails: \<^verbatim>\<open>splitPart\<close> throws on the empty string, whose only header line
  has an empty name, and on a line whose name holds a space.
\<close>

theorem splitPart_total_counterexample:
  "splitPart [] = Inl (TypeError ''invalid header name'')
   \<and> splitPart ''a b: c'' = Inl (TypeError ''invalid header name'')"
  by code_simp

end
